theory Spec2Isabelle
  imports Main "HOL-Library.Char_ord" "HOL-Library.List_Lexorder" "HOL-Library.Multiset"
begin

section \<open>Vanity URL handler: the data of \<^verbatim>\<open>handler/handler.go\<close>\<close>

text \<open>
  Go strings are byte sequences compared bytewise; \<open>string\<close> is a list of 8-bit
  characters, ordered lexicographically by character code. The \<open>Paths\<close> map of the
  raw configuration is an association list: its order is the order in which
  \<^verbatim>\<open>range c.Paths\<close> happens to visit the keys, which Go leaves unspecified, so every
  statement below holds for whatever order the list is in. Pointer fields
  (\<^verbatim>\<open>*int\<close>) are options; the \<^verbatim>\<open>*Config\<close> a successful fetch returns is taken
  to be non-nil. Go's \<^verbatim>\<open>int\<close> values are only compared and printed, never computed
  with, so they are integers. The mutex of the handler orders calls of
  \<^verbatim>\<open>configure\<close> among themselves and has no part in a sequential run.
\<close>

record RawPath =
  Repo :: string
  Display :: string
  VCS :: string

record Config =
  Host :: string
  FetchInterval :: "int option"
  CacheAge :: "int option"
  Paths :: "(string \<times> RawPath) list"

record pathConfig =
  path :: string
  repo :: string
  display :: string
  vcs :: string

type_synonym pathConfigSet = "pathConfig list"

record Handler =
  host :: string
  cacheControl :: string
  paths :: pathConfigSet

text \<open>
  The three errors \<^verbatim>\<open>configure\<close> builds, with the values interpolated into their
  messages, and the error of a failed fetch.
\<close>

datatype error =
    NegativeCacheAge
  | UnknownVCS string string
  | CannotInferVCS string string
  | FetchError string

subsection \<open>Library functions used by the handler\<close>

definition HasPrefix :: "string \<Rightarrow> string \<Rightarrow> bool" where
  "HasPrefix s pre \<longleftrightarrow> length pre \<le> length s \<and> take (length pre) s = pre"

definition HasSuffix :: "string \<Rightarrow> string \<Rightarrow> bool" where
  "HasSuffix s suf \<longleftrightarrow> length suf \<le> length s \<and> drop (length s - length suf) s = suf"

definition TrimPrefix :: "string \<Rightarrow> string \<Rightarrow> string" where
  "TrimPrefix s pre = (if HasPrefix s pre then drop (length pre) s else s)"

definition TrimSuffix :: "string \<Rightarrow> string \<Rightarrow> string" where
  "TrimSuffix s suf = (if HasSuffix s suf then take (length s - length suf) s else s)"

text \<open>Decimal rendering, as \<^verbatim>\<open>%d\<close> of \<^verbatim>\<open>fmt.Sprintf\<close> does it.\<close>

fun itoa :: "nat \<Rightarrow> string" where
  "itoa n = (if n < 10 then [''0123456789'' ! n]
             else itoa (n div 10) @ [''0123456789'' ! (n mod 10)])"

declare itoa.simps [simp del]

definition Sprintf_d :: "int \<Rightarrow> string" where
  "Sprintf_d n = (if n < 0 then CHR ''-'' # itoa (nat (- n)) else itoa (nat n))"

text \<open>
  \<^verbatim>\<open>sort.Search(n, f)\<close>: the bisection loop of the standard library, which returns
  the least index at which \<open>f\<close> holds only when \<open>f\<close> is monotone on \<open>[0, n)\<close>.
\<close>

function Search_loop :: "(nat \<Rightarrow> bool) \<Rightarrow> nat \<Rightarrow> nat \<Rightarrow> nat" where
  "Search_loop f i j =
     (if i < j then
        (let h = (i + j) div 2 in
         if \<not> f h then Search_loop f (h + 1) j else Search_loop f i h)
      else i)"
  by pat_completeness auto
termination
  by (relation "measure (\<lambda>(f, i, j). j - i)") auto

declare Search_loop.simps [simp del]

definition Search :: "nat \<Rightarrow> (nat \<Rightarrow> bool) \<Rightarrow> nat" where
  "Search n f = Search_loop f 0 n"

text \<open>
  \<^verbatim>\<open>sort.Sort(h.paths)\<close> with \<^verbatim>\<open>Less(i, j) = pset[i].path < pset[j].path\<close>. The
  library sort is not stable; the model is the insertion sort of the HOL library, and
  the theorems use of it only that its result is an ordered rearrangement of its input.
\<close>

definition Sort :: "pathConfigSet \<Rightarrow> pathConfigSet" where
  "Sort pset = sort_key path pset"

subsection \<open>\<^verbatim>\<open>Handler.configure\<close>\<close>

text \<open>
  The body of the loop over \<^verbatim>\<open>c.Paths\<close> for one key and its value: the entry to be
  appended, or the error the function returns with.
\<close>

definition configure_entry :: "string \<Rightarrow> RawPath \<Rightarrow> error + pathConfig" where
  "configure_entry key e =
     (let pc = \<lparr>path = TrimSuffix key ''/'', repo = Repo e, display = Display e, vcs = VCS e\<rparr>;
          pc = (if Display e \<noteq> [] then pc
                else if HasPrefix (Repo e) ''https://github.com/'' then
                  pc\<lparr>display := Repo e @ '' '' @ Repo e @ ''/tree/master{/dir} '' @ Repo e
                                @ ''/blob/master{/dir}/{file}#L{line}''\<rparr>
                else if HasPrefix (Repo e) ''https://bitbucket.org'' then
                  pc\<lparr>display := Repo e @ '' '' @ Repo e @ ''/src/default{/dir} '' @ Repo e
                                @ ''/src/default{/dir}/{file}#{file}-{line}''\<rparr>
                else pc)
      in if VCS e \<noteq> [] then
           (if VCS e \<noteq> ''bzr'' \<and> VCS e \<noteq> ''git'' \<and> VCS e \<noteq> ''hg'' \<and> VCS e \<noteq> ''svn''
            then Inl (UnknownVCS key (VCS e))
            else Inr pc)
         else if HasPrefix (Repo e) ''https://github.com/'' then Inr (pc\<lparr>vcs := ''git''\<rparr>)
         else Inl (CannotInferVCS key (Repo e)))"

text \<open>
  The loop itself. Each entry is appended to \<^verbatim>\<open>h.paths\<close> as soon as it is built, so
  an error leaves in the handler the entries appended before it.
\<close>

fun configure_loop :: "(string \<times> RawPath) list \<Rightarrow> Handler \<Rightarrow> Handler \<times> error option" where
  "configure_loop [] h = (h, None)"
| "configure_loop ((key, e) # rest) h =
     (case configure_entry key e of
        Inl err \<Rightarrow> (h, Some err)
      | Inr pc \<Rightarrow> configure_loop rest (h\<lparr>paths := paths h @ [pc]\<rparr>))"

definition configure :: "Handler \<Rightarrow> Config \<Rightarrow> Handler \<times> error option" where
  "configure h c =
     (if CacheAge c \<noteq> None \<and> the (CacheAge c) < 0 then (h, Some NegativeCacheAge)
      else
        (let cacheAge = (case CacheAge c of None \<Rightarrow> 86400
                         | Some a \<Rightarrow> if a \<ge> 0 then a else 86400);
             h = h\<lparr>host := Host c,
                   cacheControl := ''public, max-age='' @ Sprintf_d cacheAge,
                   paths := []\<rparr>
         in case configure_loop (Paths c) h of
              (h, Some err) \<Rightarrow> (h, Some err)
            | (h, None) \<Rightarrow> (h\<lparr>paths := Sort (paths h)\<rparr>, None)))"

subsection \<open>\<^verbatim>\<open>pathConfigSet.find\<close>\<close>

text \<open>
  The slow path: the loop over the entries before the search position, carrying
  \<^verbatim>\<open>bestMatchConfig\<close>, \<^verbatim>\<open>subpath\<close> and \<^verbatim>\<open>lenShortestSubpath\<close>.
\<close>

fun find_scan ::
  "string \<Rightarrow> pathConfig list \<Rightarrow> pathConfig option \<times> string \<times> nat
     \<Rightarrow> pathConfig option \<times> string \<times> nat" where
  "find_scan p [] st = st"
| "find_scan p (ps # rest) (bestMatchConfig, subpath, lenShortestSubpath) =
     (if length (path ps) \<ge> length p
      then find_scan p rest (bestMatchConfig, subpath, lenShortestSubpath)
      else
        (let sSubpath = TrimPrefix p (path ps) in
         if length sSubpath < lenShortestSubpath
         then find_scan p rest (Some ps, sSubpath, length sSubpath)
         else find_scan p rest (bestMatchConfig, subpath, lenShortestSubpath)))"

definition pset_find :: "pathConfigSet \<Rightarrow> string \<Rightarrow> pathConfig option \<times> string" where
  "pset_find pset p =
     (let i = Search (length pset) (\<lambda>i. path (pset ! i) \<ge> p) in
      if i < length pset \<and> path (pset ! i) = p then (Some (pset ! i), [])
      else if i > 0 \<and> HasPrefix p (path (pset ! (i - 1)) @ ''/'')
      then (Some (pset ! (i - 1)), drop (length (path (pset ! (i - 1))) + 1) p)
      else
        (case find_scan p (take i pset) (None, [], length p) of
           (bestMatchConfig, subpath, _) \<Rightarrow> (bestMatchConfig, subpath)))"

subsection \<open>\<^verbatim>\<open>Handler.ServeHTTP\<close>\<close>

record Request =
  URLPath :: string
  ReqHost :: string

text \<open>
  What the handler answers: the index page with its host and handler list, not found,
  or the vanity page with the \<^verbatim>\<open>Cache-Control\<close> header and the template's fields
  \<^verbatim>\<open>Import\<close>, \<^verbatim>\<open>Subpath\<close>, \<^verbatim>\<open>Repo\<close>, \<^verbatim>\<open>Display\<close>, \<^verbatim>\<open>VCS\<close>. The
  rendering of the templates, and its failure, are left out.
\<close>

datatype response =
    Index string "string list"
  | NotFound
  | Vanity string string string string string string

definition getHost :: "Handler \<Rightarrow> Request \<Rightarrow> string" where
  "getHost h r = (if host h = [] then ReqHost r else host h)"

definition serveIndex :: "Handler \<Rightarrow> Request \<Rightarrow> response" where
  "serveIndex h r = Index (getHost h r) (map (\<lambda>pc. getHost h r @ path pc) (paths h))"

definition ServeHTTP :: "Handler \<Rightarrow> Request \<Rightarrow> response" where
  "ServeHTTP h r =
     (let current = URLPath r in
      case pset_find (paths h) current of
        (None, subpath) \<Rightarrow> if current = ''/'' then serveIndex h r else NotFound
      | (Some pc, subpath) \<Rightarrow>
          Vanity (cacheControl h) (getHost h r @ path pc) subpath (repo pc) (display pc) (vcs pc))"

subsection \<open>\<^verbatim>\<open>NewHandler\<close> and its refresh loop\<close>

text \<open>
  \<^verbatim>\<open>NewHandler\<close> takes the outcome of the first \<^verbatim>\<open>Fetch\<close> and returns the handler
  together with the \<^verbatim>\<open>fetchInterval\<close> its goroutine has captured. One turn of the
  goroutine's loop takes the outcome of that turn's \<^verbatim>\<open>Fetch\<close>; the loop over the
  first outcomes of an unending run is a fold.
\<close>

definition Handler_zero :: Handler where
  "Handler_zero = \<lparr>host = [], cacheControl = [], paths = []\<rparr>"

definition NewHandler :: "error + Config \<Rightarrow> error + Handler \<times> int" where
  "NewHandler fetched =
     (case fetched of
        Inl err \<Rightarrow> Inl err
      | Inr config \<Rightarrow>
          (let fetchInterval =
                 (if FetchInterval config \<noteq> None \<and> the (FetchInterval config) > 0
                  then the (FetchInterval config) else 86400)
           in case configure Handler_zero config of
                (h, Some err) \<Rightarrow> Inl err
              | (h, None) \<Rightarrow> Inr (h, fetchInterval)))"

definition refresh :: "Handler \<times> int \<Rightarrow> error + Config \<Rightarrow> Handler \<times> int" where
  "refresh st fetched =
     (case st of (h, fetchInterval) \<Rightarrow>
        (case fetched of
           Inl err \<Rightarrow> (h, fetchInterval)
         | Inr config \<Rightarrow> (fst (configure h config), fetchInterval)))"

definition refresh_loop :: "Handler \<times> int \<Rightarrow> (error + Config) list \<Rightarrow> Handler \<times> int" where
  "refresh_loop st fetches = foldl refresh st fetches"

subsection \<open>The candidates of the specification\<close>

text \<open>
  The specification's reference for \<^verbatim>\<open>find\<close> is a scan over candidates, where an
  entry is a candidate for a request path when its path equals the request path or the
  request path starts with the entry's path followed by a slash. This definition follows
  the specification's words; \<open>pset_find\<close> above follows the code.
\<close>

definition spec_candidate :: "pathConfig \<Rightarrow> string \<Rightarrow> bool" where
  "spec_candidate e p \<longleftrightarrow> path e = p \<or> HasPrefix p (path e @ ''/'')"

subsection \<open>Sample configurations and snapshots\<close>

definition entry :: "string \<Rightarrow> string \<Rightarrow> pathConfig" where
  "entry p r = \<lparr>path = p, repo = r, display = [], vcs = ''git''\<rparr>"

definition raw_git :: "string \<Rightarrow> RawPath" where
  "raw_git r = \<lparr>Repo = r, Display = [], VCS = ''git''\<rparr>"

text \<open>A GitHub repository and a repository elsewhere, both without a system.\<close>

definition raw_github :: RawPath where
  "raw_github = \<lparr>Repo = ''https://github.com/u/r'', Display = [], VCS = []\<rparr>"

definition raw_elsewhere :: RawPath where
  "raw_elsewhere = \<lparr>Repo = ''https://example.com/x'', Display = [], VCS = []\<rparr>"

text \<open>Entries \<^verbatim>\<open>/a\<close> and \<^verbatim>\<open>/a/b\<close>, visited by the loop in the order \<^verbatim>\<open>/a/b\<close>, \<^verbatim>\<open>/a\<close>.\<close>

definition config_a_ab :: Config where
  "config_a_ab = \<lparr>Host = ''example.org'', FetchInterval = None, CacheAge = None,
     Paths = [(''/a/b'', raw_git ''R2''), (''/a'', raw_git ''R1'')]\<rparr>"

definition snapshot_a_ab :: Handler where
  "snapshot_a_ab = \<lparr>host = ''example.org'', cacheControl = ''public, max-age=86400'',
     paths = [entry ''/a'' ''R1'', entry ''/a/b'' ''R2'']\<rparr>"

text \<open>
  The keys of the comment in the slow path of \<^verbatim>\<open>find\<close>,
  \<^verbatim>\<open>["/", "/abc/", "/abc/def/", "/xyz/"]\<close>, and the entry set \<^verbatim>\<open>configure\<close> stores
  for them.
\<close>

definition config_comment :: Config where
  "config_comment = \<lparr>Host = [], FetchInterval = None, CacheAge = None,
     Paths = [(''/'', raw_git ''R''), (''/abc/'', raw_git ''R''),
              (''/abc/def/'', raw_git ''R''), (''/xyz/'', raw_git ''R'')]\<rparr>"

definition pset_comment :: pathConfigSet where
  "pset_comment = [entry [] ''R'', entry ''/abc'' ''R'', entry ''/abc/def'' ''R'', entry ''/xyz'' ''R'']"

text \<open>A configuration whose only entry names a version control system that is not known.\<close>

definition config_unknown_vcs :: Config where
  "config_unknown_vcs = \<lparr>Host = ''other.example'', FetchInterval = None, CacheAge = Some 0,
     Paths = [(''/z'', \<lparr>Repo = ''https://example.com/z'', Display = [], VCS = ''cvs''\<rparr>)]\<rparr>"

text \<open>
  A configuration with one good entry, visited first, and one entry whose version
  control system cannot be inferred.
\<close>

definition config_no_vcs :: Config where
  "config_no_vcs = \<lparr>Host = ''other.example'', FetchInterval = None, CacheAge = Some 0,
     Paths = [(''/y'', raw_git ''R3''),
              (''/x'', raw_elsewhere)]\<rparr>"

text \<open>The same uninferable entry under a negative \<^verbatim>\<open>cache_max_age\<close>.\<close>

definition config_negative_age :: Config where
  "config_negative_age = \<lparr>Host = ''other.example'', FetchInterval = None, CacheAge = Some (- 1),
     Paths = [(''/x'', raw_elsewhere)]\<rparr>"

text \<open>The uninferable entry visited after an entry with an unknown system.\<close>

definition config_two_bad :: Config where
  "config_two_bad = \<lparr>Host = [], FetchInterval = None, CacheAge = None,
     Paths = [(''/z'', \<lparr>Repo = ''https://example.com/z'', Display = [], VCS = ''cvs''\<rparr>),
              (''/x'', raw_elsewhere)]\<rparr>"

text \<open>Two distinct keys that differ by a trailing slash.\<close>

definition config_foo_twice :: Config where
  "config_foo_twice = \<lparr>Host = [], FetchInterval = None, CacheAge = None,
     Paths = [(''/foo'', raw_git ''R1''), (''/foo/'', raw_git ''R2'')]\<rparr>"

text \<open>The root key with an explicit system and no repository.\<close>

definition config_root :: Config where
  "config_root = \<lparr>Host = [], FetchInterval = None, CacheAge = None,
     Paths = [(''/'', raw_git [])]\<rparr>"

text \<open>Refresh intervals of zero and of one minute.\<close>

definition snapshot_a :: Handler where
  "snapshot_a = \<lparr>host = ''example.org'', cacheControl = ''public, max-age=86400'',
     paths = [entry ''/a'' ''R1'']\<rparr>"

definition config_interval_zero :: Config where
  "config_interval_zero = \<lparr>Host = ''example.org'', FetchInterval = Some 0, CacheAge = None,
     Paths = [(''/a'', raw_git ''R1'')]\<rparr>"

definition config_interval_minute :: Config where
  "config_interval_minute = \<lparr>Host = ''example.org'', FetchInterval = Some 60, CacheAge = None,
     Paths = [(''/a'', raw_git ''R1'')]\<rparr>"

text \<open>A GitHub repository under a key with a trailing slash, and what is stored for it.\<close>

definition config_github :: Config where
  "config_github = \<lparr>Host = [], FetchInterval = None, CacheAge = None,
     Paths = [(''/r/'', raw_github)]\<rparr>"

definition entry_github :: pathConfig where
  "entry_github = \<lparr>path = ''/r'', repo = ''https://github.com/u/r'',
     display = ''https://github.com/u/r https://github.com/u/r/tree/master{/dir} https://github.com/u/r/blob/master{/dir}/{file}#L{line}'',
     vcs = ''git''\<rparr>"

definition snapshot_github :: Handler where
  "snapshot_github = \<lparr>host = [], cacheControl = ''public, max-age=86400'', paths = [entry_github]\<rparr>"

text \<open>
  Two good entries, visited in descending order of their paths, before an entry with an
  unknown system.
\<close>

definition config_unsorted_fail :: Config where
  "config_unsorted_fail = \<lparr>Host = ''other.example'', FetchInterval = None, CacheAge = None,
     Paths = [(''/b'', raw_git ''R4''), (''/a'', raw_git ''R1''),
              (''/z'', \<lparr>Repo = ''https://example.com/z'', Display = [], VCS = ''cvs''\<rparr>)]\<rparr>"

section \<open>Lemmas\<close>

text \<open>The definitions that evaluate \<^verbatim>\<open>configure\<close> and \<^verbatim>\<open>find\<close> on given inputs.\<close>

lemmas configure_eval = configure_def configure_entry_def Handler_zero_def Sprintf_d_def
  itoa.simps TrimSuffix_def HasSuffix_def HasPrefix_def Sort_def Let_def

lemmas find_eval = pset_find_def Search_def Search_loop.simps HasPrefix_def TrimPrefix_def

subsection \<open>The search position is an index or the length\<close>

lemma Search_loop_bounds: "i \<le> j \<Longrightarrow> i \<le> Search_loop f i j \<and> Search_loop f i j \<le> j"
proof (induction f i j rule: Search_loop.induct)
  case (1 f i j)
  show ?case
  proof (cases "i < j")
    case False
    with "1.prems" show ?thesis by (simp add: Search_loop.simps)
  next
    case True
    define h where "h = (i + j) div 2"
    from True have hb: "i \<le> h" "h < j" by (simp_all add: h_def)
    show ?thesis
    proof (cases "f h")
      case True
      from "1.IH"(2) [OF \<open>i < j\<close> h_def] True hb
      have "i \<le> Search_loop f i h \<and> Search_loop f i h \<le> h" by simp
      with True \<open>i < j\<close> hb show ?thesis
        by (subst (1 2) Search_loop.simps) (simp add: h_def [symmetric] Let_def)
    next
      case False
      from "1.IH"(1) [OF \<open>i < j\<close> h_def] False hb
      have "h + 1 \<le> Search_loop f (h + 1) j \<and> Search_loop f (h + 1) j \<le> j" by simp
      with False \<open>i < j\<close> hb show ?thesis
        by (subst (1 2) Search_loop.simps) (simp add: h_def [symmetric] Let_def)
    qed
  qed
qed

lemma Search_le: "Search n f \<le> n"
  using Search_loop_bounds [of 0 n f] by (simp add: Search_def)

subsection \<open>\<^verbatim>\<open>find\<close> answers with a stored entry\<close>

lemma find_scan_mem:
  "find_scan p xs (b, s, l) = (Some pc, s', l') \<Longrightarrow> pc \<in> set xs \<or> b = Some pc"
proof (induction xs arbitrary: b s l)
  case Nil
  then show ?case by simp
next
  case (Cons x xs)
  show ?case
  proof (cases "length (path x) \<ge> length p")
    case True
    with Cons.prems have "find_scan p xs (b, s, l) = (Some pc, s', l')" by simp
    from Cons.IH [OF this] show ?thesis by auto
  next
    case False
    show ?thesis
    proof (cases "length (TrimPrefix p (path x)) < l")
      case True
      with False Cons.prems
      have "find_scan p xs (Some x, TrimPrefix p (path x), length (TrimPrefix p (path x)))
              = (Some pc, s', l')"
        by (simp add: Let_def)
      from Cons.IH [OF this] show ?thesis by auto
    next
      case l: False
      with False Cons.prems have "find_scan p xs (b, s, l) = (Some pc, s', l')"
        by (simp add: Let_def)
      from Cons.IH [OF this] show ?thesis by auto
    qed
  qed
qed

lemma pset_find_mem:
  assumes "pset_find pset p = (Some pc, sub)"
  shows "pc \<in> set pset"
proof -
  define i where "i = Search (length pset) (\<lambda>i. path (pset ! i) \<ge> p)"
  have le: "i \<le> length pset" unfolding i_def by (rule Search_le)
  obtain b s l where r: "find_scan p (take i pset) (None, [], length p) = (b, s, l)"
    by (cases "find_scan p (take i pset) (None, [], length p)")
  have eq: "pset_find pset p =
      (if i < length pset \<and> path (pset ! i) = p then (Some (pset ! i), [])
       else if i > 0 \<and> HasPrefix p (path (pset ! (i - 1)) @ ''/'')
       then (Some (pset ! (i - 1)), drop (length (path (pset ! (i - 1))) + 1) p)
       else (b, s))"
    unfolding pset_find_def Let_def i_def [symmetric] r by simp
  consider "i < length pset" "pc = pset ! i" | "i > 0" "pc = pset ! (i - 1)" | "b = Some pc"
    using assms unfolding eq by (auto split: if_splits)
  then show ?thesis
  proof cases
    case 1
    then show ?thesis by simp
  next
    case 2
    with le have "i - 1 < length pset" by simp
    with 2 show ?thesis by simp
  next
    case 3
    with r find_scan_mem [of p "take i pset" None "[]" "length p" pc s l]
    have "pc \<in> set (take i pset)" by simp
    then show ?thesis by (rule in_set_takeD)
  qed
qed

subsection \<open>Stripping the trailing slash\<close>

lemma TrimSuffix_slash_Nil: "TrimSuffix k ''/'' = [] \<longleftrightarrow> k = [] \<or> k = ''/''"
proof (cases k rule: rev_cases)
  case Nil
  then show ?thesis by (simp add: TrimSuffix_def HasSuffix_def)
next
  case (snoc ys y)
  then show ?thesis by (auto simp: TrimSuffix_def HasSuffix_def)
qed

subsection \<open>What a successful \<^verbatim>\<open>configure\<close> has stored\<close>

lemma configure_entry_Inr:
  assumes "configure_entry k e = Inr pc"
  shows "path pc = TrimSuffix k ''/''" and "repo pc = Repo e"
    and "vcs pc = ''bzr'' \<or> vcs pc = ''git'' \<or> vcs pc = ''hg'' \<or> vcs pc = ''svn''"
    and "VCS e = [] \<Longrightarrow> HasPrefix (Repo e) ''https://github.com/'' \<and> vcs pc = ''git''"
    and "VCS e \<noteq> [] \<Longrightarrow> vcs pc = VCS e"
  using assms by (auto simp: configure_entry_def Let_def split: if_splits)

lemma configure_loop_None:
  "configure_loop kvs h = (h', None) \<Longrightarrow>
     h' = h\<lparr>paths := paths h @ map (\<lambda>(k, e). projr (configure_entry k e)) kvs\<rparr>"
proof (induction kvs arbitrary: h)
  case Nil
  then show ?case by simp
next
  case (Cons kv kvs)
  obtain k e where kv: "kv = (k, e)" by (cases kv)
  from Cons.prems kv obtain pc where pc: "configure_entry k e = Inr pc"
    and rest: "configure_loop kvs (h\<lparr>paths := paths h @ [pc]\<rparr>) = (h', None)"
    by (auto split: sum.splits)
  from Cons.IH [OF rest] show ?case using pc kv by simp
qed

lemma configure_loop_None_all:
  "configure_loop kvs h = (h', None) \<Longrightarrow> (k, e) \<in> set kvs \<Longrightarrow> \<exists>pc. configure_entry k e = Inr pc"
proof (induction kvs arbitrary: h)
  case Nil
  then show ?case by simp
next
  case (Cons kv kvs)
  obtain k' e' where kv: "kv = (k', e')" by (cases kv)
  from Cons.prems(1) kv obtain pc where pc: "configure_entry k' e' = Inr pc"
    and rest: "configure_loop kvs (h\<lparr>paths := paths h @ [pc]\<rparr>) = (h', None)"
    by (auto split: sum.splits)
  show ?case
  proof (cases "(k, e) = (k', e')")
    case True
    with pc show ?thesis by auto
  next
    case False
    with Cons.prems(2) kv have "(k, e) \<in> set kvs" by auto
    from Cons.IH [OF rest this] show ?thesis .
  qed
qed

lemma configure_None:
  assumes "configure h c = (h', None)"
  shows "paths h' = Sort (map (\<lambda>(k, e). projr (configure_entry k e)) (Paths c))"
    and "host h' = Host c"
    and "(k, e) \<in> set (Paths c) \<Longrightarrow> \<exists>pc. configure_entry k e = Inr pc"
proof -
  let ?h1 = "h\<lparr>host := Host c,
      cacheControl := ''public, max-age='' @ Sprintf_d
        (case CacheAge c of None \<Rightarrow> 86400 | Some a \<Rightarrow> if a \<ge> 0 then a else 86400),
      paths := []\<rparr>"
  from assms obtain h2 where loop: "configure_loop (Paths c) ?h1 = (h2, None)"
    and h': "h' = h2\<lparr>paths := Sort (paths h2)\<rparr>"
    by (auto simp: configure_def Let_def split: if_splits prod.splits option.splits)
  from configure_loop_None [OF loop] h'
  show "paths h' = Sort (map (\<lambda>(k, e). projr (configure_entry k e)) (Paths c))"
    and "host h' = Host c" by simp_all
  show "(k, e) \<in> set (Paths c) \<Longrightarrow> \<exists>pc. configure_entry k e = Inr pc"
    using configure_loop_None_all [OF loop] by blast
qed

lemma configure_paths_map:
  assumes "configure h c = (h', None)"
  shows "map path (map (\<lambda>(k, e). projr (configure_entry k e)) (Paths c))
         = map (\<lambda>(k, e). TrimSuffix k ''/'') (Paths c)"
proof -
  have "path (projr (configure_entry k e)) = TrimSuffix k ''/''" if "(k, e) \<in> set (Paths c)" for k e
  proof -
    from configure_None(3) [OF assms that] obtain pc where "configure_entry k e = Inr pc" ..
    then show ?thesis using configure_entry_Inr(1) by fastforce
  qed
  then show ?thesis by auto
qed

lemma configure_stores:
  assumes "configure h c = (h', None)" and "(k, e) \<in> set (Paths c)"
  shows "\<exists>pc. configure_entry k e = Inr pc \<and> pc \<in> set (paths h')"
proof -
  from configure_None(3) [OF assms] obtain pc where pc: "configure_entry k e = Inr pc" ..
  from assms(2) have "projr (configure_entry k e)
      \<in> set (map (\<lambda>(k, e). projr (configure_entry k e)) (Paths c))"
    by force
  with pc configure_None(1) [OF assms(1)] have "pc \<in> set (paths h')"
    by (simp add: Sort_def)
  with pc show ?thesis by blast
qed

subsection \<open>How \<^verbatim>\<open>configure\<close> fails\<close>

lemma configure_loop_error:
  "\<forall>(k, e) \<in> set pre. \<exists>pc. configure_entry k e = Inr pc \<Longrightarrow>
   configure_entry key e = Inl err \<Longrightarrow>
   snd (configure_loop (pre @ (key, e) # post) h) = Some err"
proof (induction pre arbitrary: h)
  case Nil
  then show ?case by simp
next
  case (Cons kv pre)
  obtain k' e' where kv: "kv = (k', e')" by (cases kv)
  from Cons.prems(1) kv obtain pc where pc: "configure_entry k' e' = Inr pc" by auto
  from Cons.prems(1) have "\<forall>(k, e) \<in> set pre. \<exists>pc. configure_entry k e = Inr pc" by simp
  from Cons.IH [OF this Cons.prems(2)] show ?case using kv pc by simp
qed

lemma configure_snd:
  "snd (configure h c) =
     (if CacheAge c \<noteq> None \<and> the (CacheAge c) < 0 then Some NegativeCacheAge
      else snd (configure_loop (Paths c)
             (h\<lparr>host := Host c,
                cacheControl := ''public, max-age='' @ Sprintf_d
                  (case CacheAge c of None \<Rightarrow> 86400 | Some a \<Rightarrow> if a \<ge> 0 then a else 86400),
                paths := []\<rparr>)))"
  by (simp add: configure_def Let_def split: prod.splits option.splits)

lemma configure_fails:
  assumes "(key, e) \<in> set (Paths c)" and "configure_entry key e = Inl err"
  shows "snd (configure h c) \<noteq> None"
proof
  assume "snd (configure h c) = None"
  then have "configure h c = (fst (configure h c), None)"
    by (metis prod.collapse)
  from configure_None(3) [OF this assms(1)] assms(2) show False by auto
qed

lemma configure_loop_snd_indep: "snd (configure_loop kvs h) = snd (configure_loop kvs h')"
proof (induction kvs arbitrary: h h')
  case Nil
  show ?case by simp
next
  case (Cons kv kvs)
  obtain k e where kv: "kv = (k, e)" by (cases kv)
  show ?case
  proof (cases "configure_entry k e")
    case (Inl err)
    with kv show ?thesis by simp
  next
    case (Inr pc)
    with kv Cons.IH [of "h\<lparr>paths := paths h @ [pc]\<rparr>" "h'\<lparr>paths := paths h' @ [pc]\<rparr>"]
    show ?thesis by simp
  qed
qed

lemma configure_snd_zero:
  "snd (configure h c) =
     (if CacheAge c \<noteq> None \<and> the (CacheAge c) < 0 then Some NegativeCacheAge
      else snd (configure_loop (Paths c) Handler_zero))"
  unfolding configure_snd
  by (subst configure_loop_snd_indep [of _ _ Handler_zero]) (rule refl)

lemma configure_snd_indep: "snd (configure h c) = snd (configure h' c)"
  by (simp only: configure_snd_zero)

lemma configure_loop_not_NegativeCacheAge:
  "snd (configure_loop kvs h) \<noteq> Some NegativeCacheAge"
proof (induction kvs arbitrary: h)
  case Nil
  show ?case by simp
next
  case (Cons kv kvs)
  obtain k e where kv: "kv = (k, e)" by (cases kv)
  show ?case
  proof (cases "configure_entry k e")
    case (Inl err)
    then have "err \<noteq> NegativeCacheAge"
      by (auto simp: configure_entry_def Let_def split: if_splits)
    with Inl kv show ?thesis by simp
  next
    case (Inr pc)
    with kv Cons.IH show ?thesis by simp
  qed
qed

lemma configure_NegativeCacheAge:
  assumes "snd (configure h c) = Some NegativeCacheAge"
  shows "configure h c = (h, Some NegativeCacheAge)"
proof (cases "CacheAge c")
  case None
  with assms show ?thesis
    by (simp add: configure_snd_zero configure_loop_not_NegativeCacheAge)
next
  case (Some a)
  show ?thesis
  proof (cases "a < 0")
    case True
    with Some show ?thesis by (simp add: configure_def)
  next
    case False
    with Some assms show ?thesis
      by (simp add: configure_snd_zero configure_loop_not_NegativeCacheAge)
  qed
qed

subsection \<open>Keys that are stored under the same path\<close>

lemma configure_entry_same_stored:
  assumes "TrimSuffix k1 ''/'' = TrimSuffix k2 ''/''"
  shows "configure_entry k1 e = Inr pc \<longleftrightarrow> configure_entry k2 e = Inr pc"
    and "(\<exists>err. configure_entry k1 e = Inl err) \<longleftrightarrow> (\<exists>err. configure_entry k2 e = Inl err)"
  using assms by (auto simp: configure_entry_def Let_def)

lemma configure_loop_same_stored:
  assumes "TrimSuffix k1 ''/'' = TrimSuffix k2 ''/''"
  shows "fst (configure_loop (pre @ (k1, e) # post) h) = fst (configure_loop (pre @ (k2, e) # post) h) \<and>
         (snd (configure_loop (pre @ (k1, e) # post) h) = None
            \<longleftrightarrow> snd (configure_loop (pre @ (k2, e) # post) h) = None)"
proof (induction pre arbitrary: h)
  case Nil
  show ?case
  proof (cases "configure_entry k1 e")
    case (Inl err)
    with configure_entry_same_stored(2) [OF assms, of e]
    obtain err' where "configure_entry k2 e = Inl err'" by auto
    with Inl show ?thesis by simp
  next
    case (Inr pc)
    with configure_entry_same_stored(1) [OF assms, of e pc]
    have "configure_entry k2 e = Inr pc" by simp
    with Inr show ?thesis by simp
  qed
next
  case (Cons kv pre)
  obtain k' e' where kv: "kv = (k', e')" by (cases kv)
  show ?case
  proof (cases "configure_entry k' e'")
    case (Inl err)
    with kv show ?thesis by simp
  next
    case (Inr pc)
    with kv Cons.IH [of "h\<lparr>paths := paths h @ [pc]\<rparr>"] show ?thesis by simp
  qed
qed

lemma configure_same_stored:
  assumes "TrimSuffix k1 ''/'' = TrimSuffix k2 ''/''"
  shows "fst (configure h (c\<lparr>Paths := pre @ (k1, e) # post\<rparr>))
           = fst (configure h (c\<lparr>Paths := pre @ (k2, e) # post\<rparr>)) \<and>
         (snd (configure h (c\<lparr>Paths := pre @ (k1, e) # post\<rparr>)) = None
            \<longleftrightarrow> snd (configure h (c\<lparr>Paths := pre @ (k2, e) # post\<rparr>)) = None)"
proof (cases "CacheAge c \<noteq> None \<and> the (CacheAge c) < 0")
  case True
  then show ?thesis by (simp add: configure_def)
next
  case False
  define h0 where "h0 = h\<lparr>host := Host c,
      cacheControl := ''public, max-age='' @ Sprintf_d
        (case CacheAge c of None \<Rightarrow> 86400 | Some a \<Rightarrow> if a \<ge> 0 then a else 86400),
      paths := []\<rparr>"
  have cfg: "configure h (c\<lparr>Paths := ps\<rparr>) =
      (case configure_loop ps h0 of
         (h, Some err) \<Rightarrow> (h, Some err)
       | (h, None) \<Rightarrow> (h\<lparr>paths := Sort (paths h)\<rparr>, None))" for ps
    using False by (cases "CacheAge c") (simp_all add: configure_def Let_def h0_def)
  obtain h1 r1 where 1: "configure_loop (pre @ (k1, e) # post) h0 = (h1, r1)" by fastforce
  obtain h2 r2 where 2: "configure_loop (pre @ (k2, e) # post) h0 = (h2, r2)" by fastforce
  from configure_loop_same_stored [OF assms, where pre = pre and e = e and post = post and h = h0] 1 2
  have "h1 = h2" and "r1 = None \<longleftrightarrow> r2 = None" by simp_all
  then show ?thesis
    unfolding cfg 1 2 by (cases r1; cases r2) simp_all
qed

lemma pset_find_singleton_exact:
  "path pc = p \<Longrightarrow> pset_find [pc] p = (Some pc, [])"
  by (simp add: pset_find_def Search_def Search_loop.simps)

lemma pset_find_foo_bar:
  "path pc = ''/foo'' \<Longrightarrow> pset_find [pc] ''/foo/bar'' = (Some pc, ''bar'')"
  by (simp add: pset_find_def Search_def Search_loop.simps HasPrefix_def)

subsection \<open>The refresh loop\<close>

lemma refresh_loop_interval: "snd (refresh_loop (h, iv) fetches) = iv"
  unfolding refresh_loop_def
proof (induction fetches arbitrary: h)
  case Nil
  then show ?case by simp
next
  case (Cons f fs)
  then show ?case by (cases f) (simp_all add: refresh_def)
qed

lemma configure_FetchInterval: "configure h (c\<lparr>FetchInterval := x\<rparr>) = configure h c"
  by (simp add: configure_def)

lemma refresh_sorted:
  assumes "sorted (map path (paths h))"
    and "case f of Inl err \<Rightarrow> True
         | Inr c \<Rightarrow> snd (configure Handler_zero c) = None \<or>
                   snd (configure Handler_zero c) = Some NegativeCacheAge"
  shows "sorted (map path (paths (fst (refresh (h, iv) f))))"
proof (cases f)
  case (Inl err)
  with assms(1) show ?thesis by (simp add: refresh_def)
next
  case (Inr c)
  with assms(2) consider "snd (configure h c) = None" | "snd (configure h c) = Some NegativeCacheAge"
    using configure_snd_indep [of h c Handler_zero] by auto
  then show ?thesis
  proof cases
    case 1
    then have "configure h c = (fst (configure h c), None)" by (metis prod.collapse)
    from configure_None(1) [OF this] Inr show ?thesis
      by (simp add: refresh_def Sort_def sorted_sort_key)
  next
    case 2
    from configure_NegativeCacheAge [OF this] Inr assms(1) show ?thesis
      by (simp add: refresh_def)
  qed
qed

lemma refresh_loop_sorted:
  assumes "sorted (map path (paths h))"
    and "\<forall>f \<in> set fetches. case f of Inl err \<Rightarrow> True
         | Inr c \<Rightarrow> snd (configure Handler_zero c) = None \<or>
                   snd (configure Handler_zero c) = Some NegativeCacheAge"
  shows "sorted (map path (paths (fst (refresh_loop (h, iv) fetches))))"
  using assms
proof (induction fetches arbitrary: h)
  case Nil
  then show ?case by (simp add: refresh_loop_def)
next
  case (Cons f fs)
  obtain h1 where h1: "refresh (h, iv) f = (h1, iv)"
    by (cases f) (simp_all add: refresh_def)
  from refresh_sorted [OF Cons.prems(1), of f iv] Cons.prems(2) h1
  have "sorted (map path (paths h1))" by simp
  from Cons.IH [OF this] Cons.prems(2) h1 show ?case
    by (simp add: refresh_loop_def)
qed

section \<open>The claims\<close>

subsection \<open>C1: what \<^verbatim>\<open>find\<close> returns\<close>

text \<open>
  C1 says that on a sorted entry set without duplicates \<^verbatim>\<open>find\<close> returns a candidate
  of greatest path length, and returns none exactly when there is no candidate, where a
  candidate has the request path itself as its path, or its path followed by a slash is
  a prefix of the request path. The slow path compares by \<^verbatim>\<open>strings.TrimPrefix\<close>
  against paths that \<^verbatim>\<open>configure\<close> has stripped of their trailing slash. The
  comment in the code illustrates the slow path on paths that keep the slash,
  \<^verbatim>\<open>["/", "/abc/", "/abc/def/", "/xyz/"]\<close>; for the entries \<^verbatim>\<open>configure\<close> stores
  for these keys, the request \<^verbatim>\<open>/x\<close> has the root entry as a candidate, which the
  fast path would answer with subpath \<^verbatim>\<open>x\<close> were it the entry next to the search
  position; the code returns none. For the single entry \<^verbatim>\<open>/ab\<close>, the request
  \<^verbatim>\<open>/abc\<close> has no candidate; the code returns \<^verbatim>\<open>/ab\<close> with subpath \<^verbatim>\<open>c\<close>.
\<close>

theorem find_slow_path_misses:
  "configure Handler_zero config_comment
     = (\<lparr>host = [], cacheControl = ''public, max-age=86400'', paths = pset_comment\<rparr>, None) \<and>
   sorted (map path pset_comment) \<and> distinct (map path pset_comment) \<and>
   entry [] ''R'' \<in> set pset_comment \<and> spec_candidate (entry [] ''R'') ''/x'' \<and>
   pset_find pset_comment ''/x'' = (None, []) \<and>
   \<not> spec_candidate (entry ''/ab'' ''R'') ''/abc'' \<and>
   pset_find [entry ''/ab'' ''R''] ''/abc'' = (Some (entry ''/ab'' ''R''), ''c'')"
proof -
  have 1: "configure Handler_zero config_comment
     = (\<lparr>host = [], cacheControl = ''public, max-age=86400'', paths = pset_comment\<rparr>, None)"
    by (simp add: configure_eval config_comment_def pset_comment_def entry_def raw_git_def)
  have 2: "sorted (map path pset_comment) \<and> distinct (map path pset_comment) \<and>
      entry [] ''R'' \<in> set pset_comment \<and> spec_candidate (entry [] ''R'') ''/x''"
    by (simp add: pset_comment_def entry_def spec_candidate_def HasPrefix_def)
  have 3: "pset_find pset_comment ''/x'' = (None, [])"
    by (simp add: find_eval pset_comment_def entry_def)
  have 4: "\<not> spec_candidate (entry ''/ab'' ''R'') ''/abc'' \<and>
      pset_find [entry ''/ab'' ''R''] ''/abc'' = (Some (entry ''/ab'' ''R''), ''c'')"
    by (simp add: find_eval entry_def spec_candidate_def)
  from 1 2 3 4 show ?thesis by (simp only: simp_thms)
qed

subsection \<open>C2: a failed \<^verbatim>\<open>configure\<close> and the handler's state\<close>

text \<open>
  C2 says that whenever a validation step fails the handler's host, cache control and
  entries are what they were before the call. The check of \<^verbatim>\<open>cache_max_age\<close> does
  return before anything is written (C4 below), but the entries are validated only after
  \<^verbatim>\<open>h.host\<close>, \<^verbatim>\<open>h.cacheControl\<close> and \<^verbatim>\<open>h.paths\<close> have been overwritten. On the
  snapshot with entries \<^verbatim>\<open>/a\<close> and \<^verbatim>\<open>/a/b\<close>, a configuration with an unknown
  system, or with an uninferable one after a good entry, returns its error and leaves the
  rejected configuration's host and cache control and the entries appended so far; the
  request \<^verbatim>\<open>/a\<close>, served before, is then not found.
\<close>

theorem configure_failure_overwrites:
  "configure snapshot_a_ab config_unknown_vcs
     = (\<lparr>host = ''other.example'', cacheControl = ''public, max-age=0'', paths = []\<rparr>,
        Some (UnknownVCS ''/z'' ''cvs'')) \<and>
   configure snapshot_a_ab config_no_vcs
     = (\<lparr>host = ''other.example'', cacheControl = ''public, max-age=0'',
         paths = [entry ''/y'' ''R3'']\<rparr>,
        Some (CannotInferVCS ''/x'' ''https://example.com/x'')) \<and>
   ServeHTTP snapshot_a_ab \<lparr>URLPath = ''/a'', ReqHost = ''req.example''\<rparr>
     = Vanity ''public, max-age=86400'' ''example.org/a'' [] ''R1'' [] ''git'' \<and>
   ServeHTTP (fst (configure snapshot_a_ab config_unknown_vcs))
       \<lparr>URLPath = ''/a'', ReqHost = ''req.example''\<rparr>
     = NotFound"
proof -
  have 1: "configure snapshot_a_ab config_unknown_vcs
     = (\<lparr>host = ''other.example'', cacheControl = ''public, max-age=0'', paths = []\<rparr>,
        Some (UnknownVCS ''/z'' ''cvs''))"
    by (simp add: configure_eval snapshot_a_ab_def config_unknown_vcs_def entry_def)
  have 2: "configure snapshot_a_ab config_no_vcs
     = (\<lparr>host = ''other.example'', cacheControl = ''public, max-age=0'',
         paths = [entry ''/y'' ''R3'']\<rparr>,
        Some (CannotInferVCS ''/x'' ''https://example.com/x''))"
    by (simp add: configure_eval snapshot_a_ab_def config_no_vcs_def entry_def raw_git_def
        raw_elsewhere_def)
  have 3: "ServeHTTP snapshot_a_ab \<lparr>URLPath = ''/a'', ReqHost = ''req.example''\<rparr>
     = Vanity ''public, max-age=86400'' ''example.org/a'' [] ''R1'' [] ''git''"
    by (simp add: ServeHTTP_def getHost_def find_eval snapshot_a_ab_def entry_def)
  have 4: "ServeHTTP \<lparr>host = ''other.example'', cacheControl = ''public, max-age=0'', paths = []\<rparr>
       \<lparr>URLPath = ''/a'', ReqHost = ''req.example''\<rparr>
     = NotFound"
    by (simp add: ServeHTTP_def getHost_def find_eval)
  from 1 2 3 4 show ?thesis by (simp only: fst_conv simp_thms)
qed

subsection \<open>C3: the end-to-end example\<close>

text \<open>
  C3 says that on the snapshot with entries \<^verbatim>\<open>/a\<close> and \<^verbatim>\<open>/a/b\<close> the request
  \<^verbatim>\<open>/a/b/c\<close> resolves to \<^verbatim>\<open>/a/b\<close> with subpath \<^verbatim>\<open>c\<close>, \<^verbatim>\<open>/a/x\<close> to \<^verbatim>\<open>/a\<close>
  with subpath \<^verbatim>\<open>x\<close>, \<^verbatim>\<open>/z\<close> to nothing, and that \<^verbatim>\<open>/\<close> without a match is
  answered with the index. The code does all of this but one thing: \<^verbatim>\<open>/a/x\<close> sorts
  after \<^verbatim>\<open>/a/b\<close>, so it is resolved by the slow path, whose
  \<^verbatim>\<open>strings.TrimPrefix\<close> leaves the separating slash in the subpath: \<^verbatim>\<open>/x\<close>.
\<close>

theorem find_a_x_subpath:
  "configure Handler_zero config_a_ab = (snapshot_a_ab, None) \<and>
   pset_find (paths snapshot_a_ab) ''/a/b/c'' = (Some (entry ''/a/b'' ''R2''), ''c'') \<and>
   pset_find (paths snapshot_a_ab) ''/a/x'' = (Some (entry ''/a'' ''R1''), ''/x'') \<and>
   pset_find (paths snapshot_a_ab) ''/z'' = (None, []) \<and>
   ServeHTTP snapshot_a_ab \<lparr>URLPath = ''/z'', ReqHost = ''req.example''\<rparr> = NotFound \<and>
   ServeHTTP snapshot_a_ab \<lparr>URLPath = ''/'', ReqHost = ''req.example''\<rparr>
     = Index ''example.org'' [''example.org/a'', ''example.org/a/b'']"
proof -
  have 1: "configure Handler_zero config_a_ab = (snapshot_a_ab, None)"
    by (simp add: configure_eval config_a_ab_def snapshot_a_ab_def entry_def raw_git_def)
  have 2: "pset_find (paths snapshot_a_ab) ''/a/b/c'' = (Some (entry ''/a/b'' ''R2''), ''c'')"
    by (simp add: find_eval snapshot_a_ab_def entry_def)
  have 3: "pset_find (paths snapshot_a_ab) ''/a/x'' = (Some (entry ''/a'' ''R1''), ''/x'')"
    by (simp add: find_eval snapshot_a_ab_def entry_def)
  have 4: "pset_find (paths snapshot_a_ab) ''/z'' = (None, [])"
    by (simp add: find_eval snapshot_a_ab_def entry_def)
  have 5: "ServeHTTP snapshot_a_ab \<lparr>URLPath = ''/z'', ReqHost = ''req.example''\<rparr> = NotFound"
    by (simp add: ServeHTTP_def serveIndex_def getHost_def find_eval snapshot_a_ab_def entry_def)
  have 6: "ServeHTTP snapshot_a_ab \<lparr>URLPath = ''/'', ReqHost = ''req.example''\<rparr>
     = Index ''example.org'' [''example.org/a'', ''example.org/a/b'']"
    by (simp add: ServeHTTP_def serveIndex_def getHost_def find_eval snapshot_a_ab_def entry_def)
  from 1 2 3 4 5 6 show ?thesis by (simp only: simp_thms)
qed

subsection \<open>C4: a negative \<^verbatim>\<open>cache_max_age\<close>\<close>

text \<open>
  C4: a configuration whose \<^verbatim>\<open>cache_max_age\<close> is negative is rejected with the
  negative-cache-age error, by \<^verbatim>\<open>configure\<close> and so by \<^verbatim>\<open>NewHandler\<close>, and the
  handler it was applied to is unchanged: a turn of the refresh loop leaves the handler
  as it was, and every request is answered as before.
\<close>

theorem configure_negative_cache_age:
  assumes "CacheAge c = Some a" and "a < 0"
  shows "configure h c = (h, Some NegativeCacheAge) \<and>
         NewHandler (Inr c) = Inl NegativeCacheAge \<and>
         refresh (h, fetchInterval) (Inr c) = (h, fetchInterval) \<and>
         ServeHTTP (fst (configure h c)) r = ServeHTTP h r"
  using assms by (simp add: configure_def NewHandler_def refresh_def)

text \<open>The theorem at \<^verbatim>\<open>cache_max_age = -1\<close>, applied to the snapshot of C3.\<close>

theorem configure_negative_cache_age_witness:
  "CacheAge config_negative_age = Some (- 1) \<and> (- 1 :: int) < 0 \<and>
   configure snapshot_a_ab config_negative_age = (snapshot_a_ab, Some NegativeCacheAge) \<and>
   NewHandler (Inr config_negative_age) = Inl NegativeCacheAge \<and>
   refresh (snapshot_a_ab, 86400) (Inr config_negative_age) = (snapshot_a_ab, 86400) \<and>
   ServeHTTP (fst (configure snapshot_a_ab config_negative_age))
       \<lparr>URLPath = ''/a'', ReqHost = ''req.example''\<rparr>
     = ServeHTTP snapshot_a_ab \<lparr>URLPath = ''/a'', ReqHost = ''req.example''\<rparr>"
proof -
  have 1: "CacheAge config_negative_age = Some (- 1)"
    by (simp add: config_negative_age_def)
  have 2: "(- 1 :: int) < 0"
    by simp
  from configure_negative_cache_age [OF 1 2, where h = snapshot_a_ab and fetchInterval = 86400
      and r = "\<lparr>URLPath = ''/a'', ReqHost = ''req.example''\<rparr>"] 1 2
  show ?thesis by blast
qed

subsection \<open>C5: the stored entries are sorted\<close>

text \<open>
  C5 says that the entries of a successful compile are sorted ascending by path with no
  two equal paths at every moment they are visible to readers, and that sorting and
  de-duplication are the compiler's work, never the resolver's. Two things stand against
  it. Nothing in \<^verbatim>\<open>configure\<close> removes duplicates, and two distinct keys that differ
  by a trailing slash are stored under one path: the keys \<^verbatim>\<open>/foo\<close> and \<^verbatim>\<open>/foo/\<close>
  compile to two entries with path \<^verbatim>\<open>/foo\<close>. And \<^verbatim>\<open>configure\<close> rebuilds
  \<^verbatim>\<open>h.paths\<close> in place and sorts it last, so a refresh that is rejected at an entry
  leaves in the handler the entries appended so far, in the order the loop visited them:
  after the snapshot with \<^verbatim>\<open>/a\<close> and \<^verbatim>\<open>/a/b\<close>, a rejected configuration leaves
  \<^verbatim>\<open>/b\<close>, \<^verbatim>\<open>/a\<close> visible, where \<^verbatim>\<open>find\<close>, which does not sort, misses
  \<^verbatim>\<open>/a\<close>.
\<close>

theorem entries_visible_counterexample:
  "distinct (map fst (Paths config_foo_twice)) \<and>
   snd (configure Handler_zero config_foo_twice) = None \<and>
   map path (paths (fst (configure Handler_zero config_foo_twice))) = [''/foo'', ''/foo''] \<and>
   \<not> distinct (map path (paths (fst (configure Handler_zero config_foo_twice)))) \<and>
   configure Handler_zero config_a_ab = (snapshot_a_ab, None) \<and>
   refresh (snapshot_a_ab, 86400) (Inr config_unsorted_fail)
     = (\<lparr>host = ''other.example'', cacheControl = ''public, max-age=86400'',
         paths = [entry ''/b'' ''R4'', entry ''/a'' ''R1'']\<rparr>, 86400) \<and>
   \<not> sorted (map path [entry ''/b'' ''R4'', entry ''/a'' ''R1'']) \<and>
   pset_find [entry ''/b'' ''R4'', entry ''/a'' ''R1''] ''/a'' = (None, []) \<and>
   pset_find (Sort [entry ''/b'' ''R4'', entry ''/a'' ''R1'']) ''/a'' = (Some (entry ''/a'' ''R1''), [])"
proof -
  have 1: "distinct (map fst (Paths config_foo_twice)) \<and>
     snd (configure Handler_zero config_foo_twice) = None \<and>
     map path (paths (fst (configure Handler_zero config_foo_twice))) = [''/foo'', ''/foo''] \<and>
     \<not> distinct (map path (paths (fst (configure Handler_zero config_foo_twice))))"
    by (simp add: configure_eval config_foo_twice_def raw_git_def)
  have 2: "configure Handler_zero config_a_ab = (snapshot_a_ab, None)"
    by (simp add: configure_eval config_a_ab_def snapshot_a_ab_def entry_def raw_git_def)
  have 3: "refresh (snapshot_a_ab, 86400) (Inr config_unsorted_fail)
     = (\<lparr>host = ''other.example'', cacheControl = ''public, max-age=86400'',
         paths = [entry ''/b'' ''R4'', entry ''/a'' ''R1'']\<rparr>, 86400)"
    by (simp add: refresh_def configure_eval config_unsorted_fail_def snapshot_a_ab_def entry_def
        raw_git_def)
  have 4: "\<not> sorted (map path [entry ''/b'' ''R4'', entry ''/a'' ''R1''])"
    by (simp add: entry_def)
  have 5: "pset_find [entry ''/b'' ''R4'', entry ''/a'' ''R1''] ''/a'' = (None, [])"
    by (simp add: find_eval entry_def)
  have 6: "pset_find (Sort [entry ''/b'' ''R4'', entry ''/a'' ''R1'']) ''/a''
      = (Some (entry ''/a'' ''R1''), [])"
    by (simp add: find_eval Sort_def entry_def)
  from 1 2 3 4 5 6 show ?thesis by blast
qed

text \<open>
  C5 as amended: when \<^verbatim>\<open>configure\<close> succeeds, the entries it leaves in the handler
  are sorted ascending by path in the bytewise order, there is one entry for each key of
  the raw configuration, and the paths are free of duplicates exactly when the keys are
  still distinct once a trailing slash is stripped from each. The sorting is the
  compiler's, never the resolver's: \<^verbatim>\<open>find\<close> answers with an entry as it is stored.
  The entries in the handler stay sorted through every later turn of the refresh loop
  whose fetch fails, whose \<^verbatim>\<open>cache_max_age\<close> is negative or whose configuration
  compiles.
\<close>

theorem configure_sorted:
  assumes "configure h c = (h', None)"
  shows "sorted (map path (paths h')) \<and> length (paths h') = length (Paths c) \<and>
         (distinct (map path (paths h'))
            \<longleftrightarrow> distinct (map (\<lambda>(k, e). TrimSuffix k ''/'') (Paths c))) \<and>
         (\<forall>p pc sub. pset_find (paths h') p = (Some pc, sub) \<longrightarrow> pc \<in> set (paths h')) \<and>
         (\<forall>fetches.
            (\<forall>f \<in> set fetches.
               case f of Inl err \<Rightarrow> True
               | Inr c' \<Rightarrow> snd (configure Handler_zero c') = None \<or>
                          snd (configure Handler_zero c') = Some NegativeCacheAge) \<longrightarrow>
            sorted (map path (paths (fst (refresh_loop (h', fetchInterval) fetches)))))"
proof -
  let ?xs = "map (\<lambda>(k, e). projr (configure_entry k e)) (Paths c)"
  have p: "paths h' = sort_key path ?xs"
    using configure_None(1) [OF assms] by (simp add: Sort_def)
  have "mset (paths h') = mset ?xs"
    by (simp add: p)
  then have "mset (map path (paths h')) = mset (map path ?xs)"
    by (simp only: mset_map)
  then have "distinct (map path (paths h')) \<longleftrightarrow> distinct (map path ?xs)"
    by (rule mset_eq_imp_distinct_iff)
  then have d: "distinct (map path (paths h'))
      \<longleftrightarrow> distinct (map (\<lambda>(k, e). TrimSuffix k ''/'') (Paths c))"
    by (simp only: configure_paths_map [OF assms])
  have s: "sorted (map path (paths h'))"
    unfolding p by (rule sorted_sort_key)
  have l: "length (paths h') = length (Paths c)"
    by (simp add: p)
  have m: "\<forall>p pc sub. pset_find (paths h') p = (Some pc, sub) \<longrightarrow> pc \<in> set (paths h')"
    using pset_find_mem by blast
  have r: "\<forall>fetches.
            (\<forall>f \<in> set fetches.
               case f of Inl err \<Rightarrow> True
               | Inr c' \<Rightarrow> snd (configure Handler_zero c') = None \<or>
                          snd (configure Handler_zero c') = Some NegativeCacheAge) \<longrightarrow>
            sorted (map path (paths (fst (refresh_loop (h', fetchInterval) fetches))))"
    using refresh_loop_sorted [OF s] by blast
  from s l d m r show ?thesis by blast
qed

text \<open>
  The theorem at the configuration with keys \<^verbatim>\<open>/a/b\<close> and \<^verbatim>\<open>/a\<close>, followed by a
  fetch that fails, a negative \<^verbatim>\<open>cache_max_age\<close> and a configuration that compiles.
\<close>

theorem configure_sorted_witness:
  "configure Handler_zero config_a_ab = (snapshot_a_ab, None) \<and>
   sorted (map path (paths snapshot_a_ab)) \<and>
   length (paths snapshot_a_ab) = length (Paths config_a_ab) \<and>
   distinct (map path (paths snapshot_a_ab)) \<and>
   distinct (map (\<lambda>(k, e). TrimSuffix k ''/'') (Paths config_a_ab)) \<and>
   pset_find (paths snapshot_a_ab) ''/a/b/c'' = (Some (entry ''/a/b'' ''R2''), ''c'') \<and>
   entry ''/a/b'' ''R2'' \<in> set (paths snapshot_a_ab) \<and>
   snd (configure Handler_zero config_negative_age) = Some NegativeCacheAge \<and>
   snd (configure Handler_zero config_github) = None \<and>
   sorted (map path (paths (fst (refresh_loop (snapshot_a_ab, 86400)
     [Inl (FetchError ''gone''), Inr config_negative_age, Inr config_github]))))"
proof -
  have 1: "configure Handler_zero config_a_ab = (snapshot_a_ab, None)"
    by (simp add: configure_eval config_a_ab_def snapshot_a_ab_def entry_def raw_git_def)
  have 2: "distinct (map (\<lambda>(k, e). TrimSuffix k ''/'') (Paths config_a_ab))"
    by (simp add: config_a_ab_def TrimSuffix_def HasSuffix_def)
  have 3: "pset_find (paths snapshot_a_ab) ''/a/b/c'' = (Some (entry ''/a/b'' ''R2''), ''c'')"
    by (simp add: find_eval snapshot_a_ab_def entry_def)
  have 4: "snd (configure Handler_zero config_negative_age) = Some NegativeCacheAge"
    by (simp add: configure_def config_negative_age_def)
  have 5: "snd (configure Handler_zero config_github) = None"
    by (simp add: configure_eval config_github_def raw_github_def)
  have 6: "\<forall>f \<in> set [Inl (FetchError ''gone''), Inr config_negative_age, Inr config_github].
      case f of Inl err \<Rightarrow> True
      | Inr c' \<Rightarrow> snd (configure Handler_zero c') = None \<or>
                 snd (configure Handler_zero c') = Some NegativeCacheAge"
    using 4 5 by simp
  note t = configure_sorted [OF 1, where fetchInterval = 86400]
  from t 3 have 7: "entry ''/a/b'' ''R2'' \<in> set (paths snapshot_a_ab)"
    by blast
  from t 6 have 8: "sorted (map path (paths (fst (refresh_loop (snapshot_a_ab, 86400)
     [Inl (FetchError ''gone''), Inr config_negative_age, Inr config_github]))))"
    by blast
  from t 1 2 3 4 5 7 8 show ?thesis by blast
qed

subsection \<open>C6: what every stored entry has\<close>

text \<open>
  C6 says that after a successful compile every entry has a non-empty path, a non-empty
  repository and a system among git, hg, bzr and svn. Neither the path nor the
  repository is checked: the root key \<^verbatim>\<open>/\<close> with an explicit system and no repository
  compiles to an entry whose path and repository are both empty.
\<close>

theorem configure_empty_path_repo_counterexample:
  "configure Handler_zero config_root
     = (\<lparr>host = [], cacheControl = ''public, max-age=86400'',
         paths = [\<lparr>path = [], repo = [], display = [], vcs = ''git''\<rparr>]\<rparr>, None)"
  by (simp add: configure_eval config_root_def raw_git_def)

text \<open>
  C6 as amended: after a successful compile every entry has a system among git, hg, bzr
  and svn; it comes from a key of the raw configuration, its path is that key with one
  trailing slash stripped, which is empty exactly for the keys \<^verbatim>\<open>""\<close> and \<^verbatim>\<open>"/"\<close>,
  and its repository is the configured one, which is non-empty whenever the system was
  left empty, since it then starts with \<^verbatim>\<open>https://github.com/\<close>.
\<close>

theorem configure_entries_resolved:
  assumes "configure h c = (h', None)" and "pc \<in> set (paths h')"
  shows "vcs pc \<in> {''git'', ''hg'', ''bzr'', ''svn''} \<and>
         (\<exists>(k, e) \<in> set (Paths c).
             path pc = TrimSuffix k ''/'' \<and> (path pc = [] \<longleftrightarrow> k = [] \<or> k = ''/'') \<and>
             repo pc = Repo e \<and>
             (VCS e = [] \<longrightarrow> HasPrefix (repo pc) ''https://github.com/'' \<and> repo pc \<noteq> []))"
proof -
  from assms configure_None(1) [OF assms(1)]
  obtain k e where ke: "(k, e) \<in> set (Paths c)" and pc: "pc = projr (configure_entry k e)"
    by (auto simp: Sort_def)
  from configure_None(3) [OF assms(1) ke] pc have inr: "configure_entry k e = Inr pc"
    by auto
  note facts = configure_entry_Inr [OF inr]
  have "vcs pc \<in> {''git'', ''hg'', ''bzr'', ''svn''}"
    using facts(3) by auto
  moreover have "path pc = [] \<longleftrightarrow> k = [] \<or> k = ''/''"
    using facts(1) TrimSuffix_slash_Nil by simp
  moreover have "VCS e = [] \<longrightarrow> HasPrefix (repo pc) ''https://github.com/'' \<and> repo pc \<noteq> []"
    using facts(2,4) by (auto simp: HasPrefix_def)
  ultimately show ?thesis using ke facts(1,2) by blast
qed

text \<open>The theorem at a GitHub repository without a system, under the key \<^verbatim>\<open>/r/\<close>.\<close>

theorem configure_entries_resolved_witness:
  "configure Handler_zero config_github = (snapshot_github, None) \<and>
   entry_github \<in> set (paths snapshot_github) \<and>
   (''/r/'', raw_github) \<in> set (Paths config_github) \<and> VCS raw_github = [] \<and>
   vcs entry_github \<in> {''git'', ''hg'', ''bzr'', ''svn''} \<and>
   path entry_github = TrimSuffix ''/r/'' ''/'' \<and> path entry_github \<noteq> [] \<and>
   repo entry_github = Repo raw_github \<and>
   HasPrefix (repo entry_github) ''https://github.com/'' \<and> repo entry_github \<noteq> []"
proof -
  have 1: "configure Handler_zero config_github = (snapshot_github, None)"
    by (simp add: configure_eval config_github_def snapshot_github_def entry_github_def
        raw_github_def)
  have 2: "entry_github \<in> set (paths snapshot_github)"
    by (simp add: snapshot_github_def)
  have 3: "(''/r/'', raw_github) \<in> set (Paths config_github) \<and> VCS raw_github = []"
    by (simp add: config_github_def raw_github_def)
  have 4: "set (Paths config_github) = {(''/r/'', raw_github)}"
    by (simp add: config_github_def)
  from configure_entries_resolved [OF 1 2] 3
  have "vcs entry_github \<in> {''git'', ''hg'', ''bzr'', ''svn''} \<and>
     path entry_github = TrimSuffix ''/r/'' ''/'' \<and> path entry_github \<noteq> [] \<and>
     repo entry_github = Repo raw_github \<and>
     HasPrefix (repo entry_github) ''https://github.com/'' \<and> repo entry_github \<noteq> []"
    unfolding 4 by auto
  with 1 2 3 show ?thesis by blast
qed

subsection \<open>C7: an entry without a system\<close>

text \<open>
  C7 says that an entry whose system is empty and whose repository does not start with
  \<^verbatim>\<open>https://github.com/\<close> makes the whole compile fail with the cannot-infer error
  naming its path. \<^verbatim>\<open>configure\<close> returns at the first failure it meets, so another
  one can come first: with a negative \<^verbatim>\<open>cache_max_age\<close> the error is the
  negative-cache-age one, and when the loop visits an entry with an unknown system
  earlier, the error names that entry.
\<close>

theorem infer_vcs_preempted_counterexample:
  "(''/x'', raw_elsewhere) \<in> set (Paths config_negative_age) \<and>
   VCS raw_elsewhere = [] \<and> \<not> HasPrefix (Repo raw_elsewhere) ''https://github.com/'' \<and>
   snd (configure Handler_zero config_negative_age) = Some NegativeCacheAge \<and>
   (''/x'', raw_elsewhere) \<in> set (Paths config_two_bad) \<and>
   snd (configure Handler_zero config_two_bad) = Some (UnknownVCS ''/z'' ''cvs'')"
  by (simp add: configure_eval config_negative_age_def config_two_bad_def raw_elsewhere_def)

text \<open>
  C7 as amended: for an entry whose system is empty, if its repository starts with
  \<^verbatim>\<open>https://github.com/\<close> it is resolved to an entry with the key's path, its
  repository, system git and, when its display is empty too, the inferred display
  template, which contains \<^verbatim>\<open>/tree/master\<close> and \<^verbatim>\<open>/blob/master\<close>, and that
  resolved entry is among the entries every successful compile of a configuration
  holding it stores. Otherwise the loop body fails with the cannot-infer error naming
  the key as configured, every compile of a configuration holding the entry fails, and
  it fails with that very error whenever \<^verbatim>\<open>cache_max_age\<close> is not negative and
  every entry the loop visits before it is accepted.
\<close>

theorem infer_vcs:
  assumes "VCS e = []"
  shows "(HasPrefix (Repo e) ''https://github.com/'' \<longrightarrow>
           (\<exists>pc. configure_entry key e = Inr pc \<and>
              path pc = TrimSuffix key ''/'' \<and> repo pc = Repo e \<and> vcs pc = ''git'' \<and>
              (Display e = [] \<longrightarrow>
                 display pc = Repo e @ '' '' @ Repo e @ ''/tree/master{/dir} '' @ Repo e
                                @ ''/blob/master{/dir}/{file}#L{line}'' \<and>
                 (\<exists>u v. display pc = u @ ''/tree/master'' @ v) \<and>
                 (\<exists>u v. display pc = u @ ''/blob/master'' @ v)) \<and>
              ((key, e) \<in> set (Paths c) \<longrightarrow> configure h c = (h', None) \<longrightarrow>
                 pc \<in> set (paths h')))) \<and>
         (\<not> HasPrefix (Repo e) ''https://github.com/'' \<longrightarrow>
            configure_entry key e = Inl (CannotInferVCS key (Repo e)) \<and>
            ((key, e) \<in> set (Paths c) \<longrightarrow> snd (configure h c) \<noteq> None) \<and>
            (Paths c = pre @ (key, e) # post \<longrightarrow>
             (\<forall>a. CacheAge c = Some a \<longrightarrow> 0 \<le> a) \<longrightarrow>
             (\<forall>(k', e') \<in> set pre. \<exists>pc. configure_entry k' e' = Inr pc) \<longrightarrow>
             snd (configure h c) = Some (CannotInferVCS key (Repo e))))"
proof (intro conjI impI)
  assume gh: "HasPrefix (Repo e) ''https://github.com/''"
  define d where "d = Repo e @ '' '' @ Repo e @ ''/tree/master{/dir} '' @ Repo e
              @ ''/blob/master{/dir}/{file}#L{line}''"
  define pc where "pc = \<lparr>path = TrimSuffix key ''/'', repo = Repo e,
              display = (if Display e \<noteq> [] then Display e else d), vcs = ''git''\<rparr>"
  have 1: "configure_entry key e = Inr pc"
    using assms gh by (simp add: configure_entry_def Let_def pc_def d_def)
  have "d = (Repo e @ '' '' @ Repo e) @ ''/tree/master'' @ (''{/dir} '' @ Repo e
              @ ''/blob/master{/dir}/{file}#L{line}'')"
    by (simp add: d_def)
  then have 2: "\<exists>u v. d = u @ ''/tree/master'' @ v"
    by (intro exI)
  have "d = (Repo e @ '' '' @ Repo e @ ''/tree/master{/dir} '' @ Repo e) @ ''/blob/master''
              @ ''{/dir}/{file}#L{line}''"
    by (simp add: d_def)
  then have 3: "\<exists>u v. d = u @ ''/blob/master'' @ v"
    by (intro exI)
  have 4: "vcs pc = ''git''" and 5: "Display e = [] \<Longrightarrow> display pc = d"
    and 6: "path pc = TrimSuffix key ''/''" and 7: "repo pc = Repo e"
    by (simp_all add: pc_def)
  have 8: "pc \<in> set (paths h')"
    if "(key, e) \<in> set (Paths c)" and "configure h c = (h', None)"
    using configure_stores [OF that(2) that(1)] 1 by auto
  from 1 2 3 4 5 6 7 8
  have "\<exists>pc. configure_entry key e = Inr pc \<and>
              path pc = TrimSuffix key ''/'' \<and> repo pc = Repo e \<and> vcs pc = ''git'' \<and>
              (Display e = [] \<longrightarrow>
                 display pc = d \<and>
                 (\<exists>u v. display pc = u @ ''/tree/master'' @ v) \<and>
                 (\<exists>u v. display pc = u @ ''/blob/master'' @ v)) \<and>
              ((key, e) \<in> set (Paths c) \<longrightarrow> configure h c = (h', None) \<longrightarrow>
                 pc \<in> set (paths h'))"
    by (intro exI [of _ pc]) simp
  then show "\<exists>pc. configure_entry key e = Inr pc \<and>
              path pc = TrimSuffix key ''/'' \<and> repo pc = Repo e \<and> vcs pc = ''git'' \<and>
              (Display e = [] \<longrightarrow>
                 display pc = Repo e @ '' '' @ Repo e @ ''/tree/master{/dir} '' @ Repo e
                                @ ''/blob/master{/dir}/{file}#L{line}'' \<and>
                 (\<exists>u v. display pc = u @ ''/tree/master'' @ v) \<and>
                 (\<exists>u v. display pc = u @ ''/blob/master'' @ v)) \<and>
              ((key, e) \<in> set (Paths c) \<longrightarrow> configure h c = (h', None) \<longrightarrow>
                 pc \<in> set (paths h'))"
    unfolding d_def .
next
  assume ngh: "\<not> HasPrefix (Repo e) ''https://github.com/''"
  then show err: "configure_entry key e = Inl (CannotInferVCS key (Repo e))"
    using assms by (simp add: configure_entry_def Let_def)
  {
    assume "(key, e) \<in> set (Paths c)"
    from configure_fails [OF this err] show "snd (configure h c) \<noteq> None" .
  }
  {
    assume p: "Paths c = pre @ (key, e) # post"
      and a: "\<forall>a. CacheAge c = Some a \<longrightarrow> 0 \<le> a"
      and pre: "\<forall>(k', e') \<in> set pre. \<exists>pc. configure_entry k' e' = Inr pc"
    from a have "\<not> (CacheAge c \<noteq> None \<and> the (CacheAge c) < 0)" by auto
    then show "snd (configure h c) = Some (CannotInferVCS key (Repo e))"
      unfolding configure_snd p using configure_loop_error [OF pre err] by simp
  }
qed

text \<open>
  The theorem at a GitHub repository with the configuration that holds it, and at a
  repository elsewhere that the loop visits after one good entry.
\<close>

theorem infer_vcs_witness:
  "VCS raw_github = [] \<and> HasPrefix (Repo raw_github) ''https://github.com/'' \<and>
   Display raw_github = [] \<and>
   configure_entry ''/r/'' raw_github = Inr entry_github \<and> vcs entry_github = ''git'' \<and>
   (\<exists>u v. display entry_github = u @ ''/tree/master'' @ v) \<and>
   (\<exists>u v. display entry_github = u @ ''/blob/master'' @ v) \<and>
   (''/r/'', raw_github) \<in> set (Paths config_github) \<and>
   configure Handler_zero config_github = (snapshot_github, None) \<and>
   entry_github \<in> set (paths snapshot_github) \<and>
   path entry_github = TrimSuffix ''/r/'' ''/'' \<and> repo entry_github = Repo raw_github \<and>
   VCS raw_elsewhere = [] \<and> \<not> HasPrefix (Repo raw_elsewhere) ''https://github.com/'' \<and>
   Paths config_no_vcs = [(''/y'', raw_git ''R3''), (''/x'', raw_elsewhere)] \<and>
   CacheAge config_no_vcs = Some 0 \<and>
   configure_entry ''/y'' (raw_git ''R3'') = Inr (entry ''/y'' ''R3'') \<and>
   configure_entry ''/x'' raw_elsewhere = Inl (CannotInferVCS ''/x'' ''https://example.com/x'') \<and>
   snd (configure snapshot_a_ab config_no_vcs)
     = Some (CannotInferVCS ''/x'' ''https://example.com/x'')"
proof -
  have 1: "VCS raw_github = []" and 2: "HasPrefix (Repo raw_github) ''https://github.com/''"
    and 3: "Display raw_github = []"
    by (simp_all add: raw_github_def HasPrefix_def)
  have 4: "configure_entry ''/r/'' raw_github = Inr entry_github"
    by (simp add: configure_eval raw_github_def entry_github_def)
  have 5: "VCS raw_elsewhere = []"
    and 6: "\<not> HasPrefix (Repo raw_elsewhere) ''https://github.com/''"
    and 7: "Repo raw_elsewhere = ''https://example.com/x''"
    by (simp_all add: raw_elsewhere_def HasPrefix_def)
  have 8: "Paths config_no_vcs = [(''/y'', raw_git ''R3'')] @ (''/x'', raw_elsewhere) # []"
    and 9: "\<forall>a. CacheAge config_no_vcs = Some a \<longrightarrow> 0 \<le> a"
    by (simp_all add: config_no_vcs_def)
  have 10: "\<forall>(k', e') \<in> set [(''/y'', raw_git ''R3'')]. \<exists>pc. configure_entry k' e' = Inr pc"
    by (simp add: configure_eval raw_git_def)
  have g1: "(''/r/'', raw_github) \<in> set (Paths config_github)"
    by (simp add: config_github_def)
  have g2: "configure Handler_zero config_github = (snapshot_github, None)"
    by (simp add: configure_eval config_github_def snapshot_github_def entry_github_def
        raw_github_def)
  from infer_vcs [OF 1, where key = "''/r/''" and c = config_github and h = Handler_zero
      and h' = snapshot_github] 2
  obtain pc where p: "configure_entry ''/r/'' raw_github = Inr pc \<and>
      path pc = TrimSuffix ''/r/'' ''/'' \<and> repo pc = Repo raw_github \<and> vcs pc = ''git'' \<and>
      (Display raw_github = [] \<longrightarrow>
         display pc = Repo raw_github @ '' '' @ Repo raw_github @ ''/tree/master{/dir} ''
                        @ Repo raw_github @ ''/blob/master{/dir}/{file}#L{line}'' \<and>
         (\<exists>u v. display pc = u @ ''/tree/master'' @ v) \<and>
         (\<exists>u v. display pc = u @ ''/blob/master'' @ v)) \<and>
      ((''/r/'', raw_github) \<in> set (Paths config_github) \<longrightarrow>
         configure Handler_zero config_github = (snapshot_github, None) \<longrightarrow>
         pc \<in> set (paths snapshot_github))"
    by blast
  from p 4 have "pc = entry_github"
    by simp
  with p 3 g1 g2 have a: "vcs entry_github = ''git'' \<and>
      (\<exists>u v. display entry_github = u @ ''/tree/master'' @ v) \<and>
      (\<exists>u v. display entry_github = u @ ''/blob/master'' @ v) \<and>
      entry_github \<in> set (paths snapshot_github) \<and>
      path entry_github = TrimSuffix ''/r/'' ''/'' \<and> repo entry_github = Repo raw_github"
    by blast
  from infer_vcs [OF 5, where key = "''/x''" and c = config_no_vcs and h = snapshot_a_ab
      and pre = "[(''/y'', raw_git ''R3'')]" and post = "[]"] 6 8 9 10
  have b: "configure_entry ''/x'' raw_elsewhere = Inl (CannotInferVCS ''/x'' (Repo raw_elsewhere)) \<and>
      snd (configure snapshot_a_ab config_no_vcs) = Some (CannotInferVCS ''/x'' (Repo raw_elsewhere))"
    by blast
  have 11: "Paths config_no_vcs = [(''/y'', raw_git ''R3''), (''/x'', raw_elsewhere)]"
    and 12: "CacheAge config_no_vcs = Some 0"
    by (simp_all add: config_no_vcs_def)
  have 13: "configure_entry ''/y'' (raw_git ''R3'') = Inr (entry ''/y'' ''R3'')"
    by (simp add: configure_eval raw_git_def entry_def)
  from 1 2 3 4 5 6 11 12 13 g1 g2 a b [unfolded 7] show ?thesis by blast
qed

subsection \<open>C8: a key with a trailing slash\<close>

text \<open>
  C8: an entry registered under \<^verbatim>\<open>/foo/\<close> is stored with path \<^verbatim>\<open>/foo\<close>, as the
  very entry that the key \<^verbatim>\<open>/foo\<close> gives. Whatever the repository, display and
  system, whatever else the configuration holds and wherever the loop visits the key,
  \<^verbatim>\<open>configure\<close> leaves the same handler for either key and succeeds for one exactly
  when it succeeds for the other, so every request path resolves to the same entry with
  the same subpath. Alone in a snapshot, the entry matches \<^verbatim>\<open>/foo\<close> with an empty
  subpath and \<^verbatim>\<open>/foo/bar\<close> with subpath \<^verbatim>\<open>bar\<close>.
\<close>

theorem trailing_slash_key:
  "(\<forall>pc. configure_entry ''/foo/'' e = Inr pc \<longrightarrow>
       path pc = ''/foo'' \<and> configure_entry ''/foo'' e = Inr pc) \<and>
   fst (configure h (c\<lparr>Paths := pre @ (''/foo/'', e) # post\<rparr>))
     = fst (configure h (c\<lparr>Paths := pre @ (''/foo'', e) # post\<rparr>)) \<and>
   (snd (configure h (c\<lparr>Paths := pre @ (''/foo/'', e) # post\<rparr>)) = None
      \<longleftrightarrow> snd (configure h (c\<lparr>Paths := pre @ (''/foo'', e) # post\<rparr>)) = None) \<and>
   pset_find (paths (fst (configure h (c\<lparr>Paths := pre @ (''/foo/'', e) # post\<rparr>)))) p
     = pset_find (paths (fst (configure h (c\<lparr>Paths := pre @ (''/foo'', e) # post\<rparr>)))) p \<and>
   (\<forall>h'. configure h (c\<lparr>Paths := [(''/foo/'', e)]\<rparr>) = (h', None) \<longrightarrow>
      (\<exists>pc. paths h' = [pc] \<and> path pc = ''/foo'' \<and> repo pc = Repo e \<and>
            pset_find (paths h') ''/foo'' = (Some pc, []) \<and>
            pset_find (paths h') ''/foo/bar'' = (Some pc, ''bar'')))"
proof -
  have t: "TrimSuffix ''/foo/'' ''/'' = TrimSuffix ''/foo'' ''/''"
    and t': "TrimSuffix ''/foo/'' ''/'' = ''/foo''"
    by (simp_all add: TrimSuffix_def HasSuffix_def)
  have a: "path pc = ''/foo'' \<and> configure_entry ''/foo'' e = Inr pc"
    if "configure_entry ''/foo/'' e = Inr pc" for pc
    using that configure_entry_Inr(1) [OF that] configure_entry_same_stored(1) [OF t, of e pc] t'
    by simp
  note b = configure_same_stored [OF t, where h = h and c = c and pre = pre and e = e and post = post]
  have d: "\<exists>pc. paths h' = [pc] \<and> path pc = ''/foo'' \<and> repo pc = Repo e \<and>
            pset_find (paths h') ''/foo'' = (Some pc, []) \<and>
            pset_find (paths h') ''/foo/bar'' = (Some pc, ''bar'')"
    if "configure h (c\<lparr>Paths := [(''/foo/'', e)]\<rparr>) = (h', None)" for h'
  proof -
    from configure_None(3) [OF that, of "''/foo/''" e]
    obtain pc where pc: "configure_entry ''/foo/'' e = Inr pc" by auto
    from configure_None(1) [OF that] pc have p: "paths h' = [pc]"
      by (simp add: Sort_def)
    from a [OF pc] have "path pc = ''/foo''" by simp
    with p configure_entry_Inr(2) [OF pc] show ?thesis
      by (simp add: pset_find_singleton_exact pset_find_foo_bar)
  qed
  from a b d show ?thesis by simp
qed

text \<open>The theorem at a repository with system git, alone in its configuration.\<close>

theorem trailing_slash_key_witness:
  "configure_entry ''/foo/'' (raw_git ''R1'') = Inr (entry ''/foo'' ''R1'') \<and>
   configure_entry ''/foo'' (raw_git ''R1'') = Inr (entry ''/foo'' ''R1'') \<and>
   configure Handler_zero (config_root\<lparr>Paths := [(''/foo/'', raw_git ''R1'')]\<rparr>)
     = (\<lparr>host = [], cacheControl = ''public, max-age=86400'', paths = [entry ''/foo'' ''R1'']\<rparr>, None) \<and>
   fst (configure Handler_zero (config_root\<lparr>Paths := [(''/foo'', raw_git ''R1'')]\<rparr>))
     = \<lparr>host = [], cacheControl = ''public, max-age=86400'', paths = [entry ''/foo'' ''R1'']\<rparr> \<and>
   pset_find [entry ''/foo'' ''R1''] ''/foo'' = (Some (entry ''/foo'' ''R1''), []) \<and>
   pset_find [entry ''/foo'' ''R1''] ''/foo/bar'' = (Some (entry ''/foo'' ''R1''), ''bar'')"
proof -
  have 1: "configure_entry ''/foo/'' (raw_git ''R1'') = Inr (entry ''/foo'' ''R1'')"
    by (simp add: configure_eval raw_git_def entry_def)
  have 2: "configure Handler_zero (config_root\<lparr>Paths := [(''/foo/'', raw_git ''R1'')]\<rparr>)
     = (\<lparr>host = [], cacheControl = ''public, max-age=86400'', paths = [entry ''/foo'' ''R1'']\<rparr>, None)"
    by (simp add: configure_eval config_root_def raw_git_def entry_def)
  note t = trailing_slash_key [where e = "raw_git ''R1''" and h = Handler_zero and c = config_root
      and pre = "[]" and post = "[]" and p = "''/foo/bar''"]
  from t 1 have 3: "configure_entry ''/foo'' (raw_git ''R1'') = Inr (entry ''/foo'' ''R1'')"
    by blast
  from t 2 have 4: "fst (configure Handler_zero (config_root\<lparr>Paths := [(''/foo'', raw_git ''R1'')]\<rparr>))
     = \<lparr>host = [], cacheControl = ''public, max-age=86400'', paths = [entry ''/foo'' ''R1'']\<rparr>"
    by simp
  from t 2 have 5: "pset_find [entry ''/foo'' ''R1''] ''/foo'' = (Some (entry ''/foo'' ''R1''), []) \<and>
      pset_find [entry ''/foo'' ''R1''] ''/foo/bar'' = (Some (entry ''/foo'' ''R1''), ''bar'')"
    by auto
  from 1 2 3 4 5 show ?thesis by blast
qed

subsection \<open>C9: what a request observes\<close>

text \<open>
  C9 says that every request observes the snapshot of the most recent successful
  compile, as a complete unit. Already without any interleaving this fails, by the
  defect of C2: \<^verbatim>\<open>NewHandler\<close> compiles the configuration with \<^verbatim>\<open>/a\<close> and
  \<^verbatim>\<open>/a/b\<close>, which serves \<^verbatim>\<open>/a\<close>; one turn of the refresh loop then fetches a
  configuration that \<^verbatim>\<open>configure\<close> rejects, and the next request for \<^verbatim>\<open>/a\<close> is
  not found. After a configuration rejected at its second entry, the request \<^verbatim>\<open>/y\<close>
  is served with the host, cache control and first entry of that rejected configuration,
  which no compile has ever accepted. What a request running at the same time as
  \<^verbatim>\<open>configure\<close> reads is beyond this sequential model.
\<close>

theorem refresh_serves_rejected_configuration:
  "NewHandler (Inr config_a_ab) = Inr (snapshot_a_ab, 86400) \<and>
   ServeHTTP (fst (refresh_loop (snapshot_a_ab, 86400) []))
       \<lparr>URLPath = ''/a'', ReqHost = ''req.example''\<rparr>
     = Vanity ''public, max-age=86400'' ''example.org/a'' [] ''R1'' [] ''git'' \<and>
   snd (configure snapshot_a_ab config_unknown_vcs) = Some (UnknownVCS ''/z'' ''cvs'') \<and>
   ServeHTTP (fst (refresh_loop (snapshot_a_ab, 86400) [Inr config_unknown_vcs]))
       \<lparr>URLPath = ''/a'', ReqHost = ''req.example''\<rparr>
     = NotFound \<and>
   snd (configure snapshot_a_ab config_no_vcs)
     = Some (CannotInferVCS ''/x'' ''https://example.com/x'') \<and>
   ServeHTTP (fst (refresh_loop (snapshot_a_ab, 86400) [Inr config_no_vcs]))
       \<lparr>URLPath = ''/y'', ReqHost = ''req.example''\<rparr>
     = Vanity ''public, max-age=0'' ''other.example/y'' [] ''R3'' [] ''git''"
proof -
  have c: "configure Handler_zero config_a_ab = (snapshot_a_ab, None)"
    by (simp add: configure_eval config_a_ab_def snapshot_a_ab_def entry_def raw_git_def)
  have 1: "NewHandler (Inr config_a_ab) = Inr (snapshot_a_ab, 86400)"
    by (simp add: NewHandler_def c) (simp add: config_a_ab_def)
  have 2: "ServeHTTP (fst (refresh_loop (snapshot_a_ab, 86400) []))
       \<lparr>URLPath = ''/a'', ReqHost = ''req.example''\<rparr>
     = Vanity ''public, max-age=86400'' ''example.org/a'' [] ''R1'' [] ''git''"
    by (simp add: refresh_loop_def ServeHTTP_def getHost_def find_eval snapshot_a_ab_def entry_def)
  have u: "configure snapshot_a_ab config_unknown_vcs
     = (\<lparr>host = ''other.example'', cacheControl = ''public, max-age=0'', paths = []\<rparr>,
        Some (UnknownVCS ''/z'' ''cvs''))"
    by (simp add: configure_eval snapshot_a_ab_def config_unknown_vcs_def entry_def)
  have 3: "snd (configure snapshot_a_ab config_unknown_vcs) = Some (UnknownVCS ''/z'' ''cvs'')"
    by (simp add: u)
  have 4: "ServeHTTP (fst (refresh_loop (snapshot_a_ab, 86400) [Inr config_unknown_vcs]))
       \<lparr>URLPath = ''/a'', ReqHost = ''req.example''\<rparr>
     = NotFound"
    by (simp add: refresh_loop_def refresh_def u) (simp add: ServeHTTP_def getHost_def find_eval)
  have n: "configure snapshot_a_ab config_no_vcs
     = (\<lparr>host = ''other.example'', cacheControl = ''public, max-age=0'',
         paths = [entry ''/y'' ''R3'']\<rparr>,
        Some (CannotInferVCS ''/x'' ''https://example.com/x''))"
    by (simp add: configure_eval snapshot_a_ab_def config_no_vcs_def entry_def raw_git_def
        raw_elsewhere_def)
  have 5: "snd (configure snapshot_a_ab config_no_vcs)
     = Some (CannotInferVCS ''/x'' ''https://example.com/x'')"
    by (simp add: n)
  have 6: "ServeHTTP (fst (refresh_loop (snapshot_a_ab, 86400) [Inr config_no_vcs]))
       \<lparr>URLPath = ''/y'', ReqHost = ''req.example''\<rparr>
     = Vanity ''public, max-age=0'' ''other.example/y'' [] ''R3'' [] ''git''"
    by (simp add: refresh_loop_def refresh_def n)
       (simp add: ServeHTTP_def getHost_def find_eval entry_def)
  from 1 2 3 4 5 6 show ?thesis by (simp only: simp_thms)
qed

subsection \<open>C10: a refresh interval that is not positive\<close>

text \<open>
  C10: when \<^verbatim>\<open>fetch_interval\<close> is present but zero or negative, \<^verbatim>\<open>NewHandler\<close>
  does exactly what it does when the field is absent: if it returns a handler, the
  interval its goroutine has captured is 86400 seconds, and if it fails, the error is
  the one \<^verbatim>\<open>configure\<close> gave. The interval stays what it was through every turn of
  the refresh loop, whatever the later fetches bring.
\<close>

theorem nonpositive_fetch_interval:
  assumes "FetchInterval c = Some n" and "n \<le> 0"
  shows "NewHandler (Inr c) = NewHandler (Inr (c\<lparr>FetchInterval := None\<rparr>)) \<and>
         (\<forall>h iv. NewHandler (Inr c) = Inr (h, iv) \<longrightarrow>
            iv = 86400 \<and> (\<forall>fetches. snd (refresh_loop (h, iv) fetches) = 86400)) \<and>
         (\<forall>err. NewHandler (Inr c) = Inl err \<longrightarrow> snd (configure Handler_zero c) = Some err)"
proof -
  have eq: "NewHandler (Inr c) = NewHandler (Inr (c\<lparr>FetchInterval := None\<rparr>))"
    using assms by (simp add: NewHandler_def configure_FetchInterval)
  have iv: "iv = 86400" if "NewHandler (Inr c) = Inr (h, iv)" for h iv
    using that assms by (auto simp: NewHandler_def split: prod.splits option.splits)
  have er: "snd (configure Handler_zero c) = Some err" if "NewHandler (Inr c) = Inl err" for err
    using that by (auto simp: NewHandler_def split: prod.splits option.splits)
  from eq iv er show ?thesis by (simp add: refresh_loop_interval)
qed

text \<open>
  The theorem at \<^verbatim>\<open>fetch_interval = 0\<close>, followed by a reload that asks for one
  minute and a fetch that fails.
\<close>

theorem nonpositive_fetch_interval_witness:
  "FetchInterval config_interval_zero = Some 0 \<and> (0 :: int) \<le> 0 \<and>
   NewHandler (Inr config_interval_zero) = Inr (snapshot_a, 86400) \<and>
   NewHandler (Inr (config_interval_zero\<lparr>FetchInterval := None\<rparr>)) = Inr (snapshot_a, 86400) \<and>
   snd (refresh_loop (snapshot_a, 86400) [Inr config_interval_minute, Inl (FetchError ''gone'')])
     = 86400"
proof -
  have 1: "FetchInterval config_interval_zero = Some 0"
    by (simp add: config_interval_zero_def)
  have 2: "(0 :: int) \<le> 0"
    by simp
  have 3: "configure Handler_zero config_interval_zero = (snapshot_a, None)"
    by (simp add: configure_eval config_interval_zero_def snapshot_a_def raw_git_def entry_def)
  have 4: "NewHandler (Inr config_interval_zero) = Inr (snapshot_a, 86400)"
    by (simp add: NewHandler_def 1 3)
  from nonpositive_fetch_interval [OF 1 2] 1 2 4 show ?thesis by metis
qed
end
